theory Spec2Isabelle
  imports Complex_Main "HOL-Library.AList"
begin

section \<open>Data model\<close>

text \<open>
  The routing engine is the class \<open>NetworkGraph\<close> (\<open>lib/dijkstra\<close>) together with the
  interfaces \<open>NetworkNode\<close>, \<open>NetworkConnection\<close> and \<open>RoutingResult\<close> of
  \<open>types/network\<close>.

  A JavaScript \<open>number\<close> that takes part in routing is either a finite value or
  \<open>Infinity\<close> (the initial tentative distance). Finite values are read as real numbers:
  rounding of IEEE doubles, \<open>NaN\<close> and negative zero are outside this model.
\<close>

datatype jsnum = Fin real | Infinity

fun jsadd :: "jsnum \<Rightarrow> jsnum \<Rightarrow> jsnum" where
  "jsadd (Fin a) (Fin b) = Fin (a + b)"
| "jsadd _ _ = Infinity"

fun jsless :: "jsnum \<Rightarrow> jsnum \<Rightarrow> bool" where
  "jsless (Fin a) (Fin b) = (a < b)"
| "jsless (Fin a) Infinity = True"
| "jsless Infinity _ = False"

text \<open>
  \<open>m.get(k) || d\<close> on a map of numbers: the default is taken when the key is missing
  (\<open>undefined\<close>) and also when the stored number is \<open>0\<close>, which is falsy.
\<close>

fun num_or :: "jsnum option \<Rightarrow> jsnum \<Rightarrow> jsnum" where
  "num_or None d = d"
| "num_or (Some v) d = (if v = Fin 0 then d else v)"

text \<open>
  \<open>previous.get(k) || null\<close> on a map of \<open>string | null\<close>: a missing key, \<open>null\<close> and
  the empty string all give \<open>null\<close>.
\<close>

fun str_or_null :: "string option option \<Rightarrow> string option" where
  "str_or_null None = None"
| "str_or_null (Some None) = None"
| "str_or_null (Some (Some s)) = (if s = [] then None else Some s)"

record NetworkNode =
  nid :: int
  nodeId :: string
  name :: string
  latitude :: real
  longitude :: real
  isOnline :: bool
  signalStrength :: real
  lastSeen :: int

record NetworkConnection =
  cid :: int
  fromNodeId :: string
  toNodeId :: string
  distance :: real
  latency :: real
  isActive :: bool

record RoutingResult =
  path :: "string list"
  totalDistance :: jsnum
  hops :: int

text \<open>
  A JavaScript \<open>Map\<close> iterates in insertion order and \<open>set\<close> on a present key keeps the
  key's position: an association list with \<open>AList.update\<close> for \<open>set\<close>, \<open>map_of\<close> for
  \<open>get\<close> and \<open>map fst\<close> for \<open>keys()\<close>. A \<open>Set\<close> is a list with \<open>set_add\<close> and
  \<open>removeAll\<close>.
\<close>

type_synonym neighbors = "(string \<times> jsnum) list"
type_synonym adjacency = "(string \<times> neighbors) list"
type_synonym distmap = "(string \<times> jsnum) list"
type_synonym prevmap = "(string \<times> string option) list"

record NetworkGraph =
  nodes :: "(string \<times> NetworkNode) list"
  adjacencyList :: adjacency

definition set_add :: "'a \<Rightarrow> 'a list \<Rightarrow> 'a list" where
  "set_add x xs = (if x \<in> set xs then xs else xs @ [x])"

section \<open>Construction of the topology\<close>

definition calculateEdgeWeight :: "NetworkConnection \<Rightarrow> jsnum" where
  "calculateEdgeWeight connection = Fin (distance connection * 10 + latency connection / 10)"

text \<open>The body of \<open>nodes.forEach\<close>.\<close>

definition init_node :: "NetworkGraph \<Rightarrow> NetworkNode \<Rightarrow> NetworkGraph" where
  "init_node g node =
     g\<lparr>nodes := AList.update (nodeId node) node (nodes g),
       adjacencyList := AList.update (nodeId node) [] (adjacencyList g)\<rparr>"

text \<open>\<open>adjacencyList.get(a)?.set(b, w)\<close>: nothing happens when \<open>a\<close> is not a key.\<close>

definition set_edge :: "adjacency \<Rightarrow> string \<Rightarrow> string \<Rightarrow> jsnum \<Rightarrow> adjacency" where
  "set_edge adj a b w =
     (case map_of adj a of
        None \<Rightarrow> adj
      | Some m \<Rightarrow> AList.update a (AList.update b w m) adj)"

text \<open>The body of \<open>connections.forEach\<close>.\<close>

definition add_connection :: "NetworkGraph \<Rightarrow> NetworkConnection \<Rightarrow> NetworkGraph" where
  "add_connection g conn =
     (if isActive conn then
        (let weight = calculateEdgeWeight conn in
         g\<lparr>adjacencyList :=
             set_edge (set_edge (adjacencyList g) (fromNodeId conn) (toNodeId conn) weight)
               (toNodeId conn) (fromNodeId conn) weight\<rparr>)
      else g)"

definition new_NetworkGraph :: "NetworkNode list \<Rightarrow> NetworkConnection list \<Rightarrow> NetworkGraph" where
  "new_NetworkGraph ns cs =
     foldl add_connection (foldl init_node \<lparr>nodes = [], adjacencyList = []\<rparr> ns) cs"

section \<open>Shortest path\<close>

text \<open>The initialisation loop over \<open>this.nodes.keys()\<close>.\<close>

fun init_search :: "string \<Rightarrow> string list \<Rightarrow> distmap \<times> prevmap \<times> string list
    \<Rightarrow> distmap \<times> prevmap \<times> string list" where
  "init_search start [] st = st"
| "init_search start (k # ks) (distances, previous, unvisited) =
     init_search start ks
       (AList.update k (if k = start then Fin 0 else Infinity) distances,
        AList.update k None previous,
        set_add k unvisited)"

text \<open>The inner loop that selects the unvisited node with minimum distance.\<close>

fun find_min :: "distmap \<Rightarrow> string list \<Rightarrow> string option \<times> jsnum \<Rightarrow> string option \<times> jsnum" where
  "find_min distances [] acc = acc"
| "find_min distances (k # ks) (current, minDistance) =
     (let distance = num_or (map_of distances k) Infinity in
      if jsless distance minDistance then find_min distances ks (Some k, distance)
      else find_min distances ks (current, minDistance))"

text \<open>The loop over the neighbours of the settled node.\<close>

fun relax :: "string \<Rightarrow> string list \<Rightarrow> neighbors \<Rightarrow> distmap \<times> prevmap \<Rightarrow> distmap \<times> prevmap" where
  "relax current unvisited [] st = st"
| "relax current unvisited ((neighbor, weight) # rest) (distances, previous) =
     (if neighbor \<in> set unvisited then
        (let newDistance = jsadd (num_or (map_of distances current) (Fin 0)) weight in
         if jsless newDistance (num_or (map_of distances neighbor) Infinity) then
           relax current unvisited rest
             (AList.update neighbor newDistance distances,
              AList.update neighbor (Some current) previous)
         else relax current unvisited rest (distances, previous))
      else relax current unvisited rest (distances, previous))"

lemma find_min_mem:
  "find_min distances ks (cur, m) = (Some c, m') \<Longrightarrow> cur = Some c \<or> c \<in> set ks"
  by (induction ks arbitrary: cur m) (auto simp: Let_def split: if_splits)

text \<open>
  The \<open>while (unvisited.size > 0)\<close> loop. \<open>!current\<close> holds for \<open>null\<close> and for the empty
  string.
\<close>

function search :: "adjacency \<Rightarrow> string \<Rightarrow> distmap \<Rightarrow> prevmap \<Rightarrow> string list
    \<Rightarrow> distmap \<times> prevmap" where
  "search adj endNode distances previous unvisited =
     (if 0 < length unvisited then
        (case find_min distances unvisited (None, Infinity) of
           (None, minDistance) \<Rightarrow> (distances, previous)
         | (Some current, minDistance) \<Rightarrow>
             if current = [] \<or> minDistance = Infinity then (distances, previous)
             else if current = endNode then (distances, previous)
             else (case map_of adj current of
                     None \<Rightarrow>
                       search adj endNode distances previous (removeAll current unvisited)
                   | Some neighbors \<Rightarrow>
                       (case relax current (removeAll current unvisited) neighbors
                               (distances, previous) of
                          (distances', previous') \<Rightarrow>
                            search adj endNode distances' previous'
                              (removeAll current unvisited))))
      else (distances, previous))"
  by pat_completeness auto
termination
proof (relation "measure (\<lambda>(adj, endNode, distances, previous, unvisited). length unvisited)")
  show "wf (measure (\<lambda>(adj, endNode, distances, previous, unvisited). length unvisited))"
    by simp
next
  fix adj :: adjacency and endNode :: string and distances :: distmap and previous :: prevmap
    and unvisited :: "string list" and x :: "string option \<times> jsnum" and x1 x2 x2a
  assume "(x1, x2) = find_min distances unvisited (None, Infinity)" and "x1 = Some x2a"
  then have "x2a \<in> set unvisited"
    using find_min_mem[of distances unvisited None Infinity x2a x2] by simp
  then have "length (removeAll x2a unvisited) < length unvisited"
    by (simp add: length_removeAll_less)
  then show "((adj, endNode, distances, previous, removeAll x2a unvisited),
              adj, endNode, distances, previous, unvisited)
             \<in> measure (\<lambda>(adj, endNode, distances, previous, unvisited). length unvisited)"
    by simp
next
  fix adj :: adjacency and endNode :: string and distances :: distmap and previous :: prevmap
    and unvisited :: "string list" and x :: "string option \<times> jsnum" and x1 x2 x2a
    and x2b :: neighbors and xa :: "distmap \<times> prevmap" and xb y
  assume "(x1, x2) = find_min distances unvisited (None, Infinity)" and "x1 = Some x2a"
  then have "x2a \<in> set unvisited"
    using find_min_mem[of distances unvisited None Infinity x2a x2] by simp
  then have "length (removeAll x2a unvisited) < length unvisited"
    by (simp add: length_removeAll_less)
  then show "((adj, endNode, xb, y, removeAll x2a unvisited),
              adj, endNode, distances, previous, unvisited)
             \<in> measure (\<lambda>(adj, endNode, distances, previous, unvisited). length unvisited)"
    by simp
qed

declare search.simps [simp del]

text \<open>
  The path reconstruction loop \<open>while (current !== null)\<close>. Nothing in the loop itself
  bounds the walk along \<open>previous\<close>, so it is a partial function: \<open>None\<close> stands for a
  walk that never ends; \<open>acc\<close> is the array \<open>path\<close>, filled by \<open>unshift\<close>.
\<close>

partial_function (option) reconstruct :: "prevmap \<Rightarrow> string option \<Rightarrow> string list
    \<Rightarrow> string list option" where
  "reconstruct previous current acc =
     (case current of
        None \<Rightarrow> Some acc
      | Some c \<Rightarrow> reconstruct previous (str_or_null (map_of previous c)) (c # acc))"

text \<open>
  Lines 56 to 111 of \<open>findShortestPath\<close>, everything after the initialisation loop, as a
  function of the three collections that loop has filled: the search, the reconstruction
  and the result. The outer \<open>option\<close> is \<open>None\<close> when the call does not return, the inner
  one is the \<open>RoutingResult | null\<close> of the source. \<open>path[0] !== start\<close> on an empty
  array compares \<open>undefined\<close> with a string.
\<close>

definition route_from :: "NetworkGraph \<Rightarrow> string \<Rightarrow> string \<Rightarrow> distmap \<times> prevmap \<times> string list
    \<Rightarrow> RoutingResult option option" where
  "route_from g start endNode st =
     (case st of
        (distances0, previous0, unvisited0) \<Rightarrow>
          (case search (adjacencyList g) endNode distances0 previous0 unvisited0 of
             (distances, previous) \<Rightarrow>
               (case reconstruct previous (Some endNode) [] of
                  None \<Rightarrow> None
                | Some p \<Rightarrow>
                    if (case p of [] \<Rightarrow> True | h # _ \<Rightarrow> h \<noteq> start) then Some None
                    else Some (Some \<lparr>path = p,
                                     totalDistance = num_or (map_of distances endNode) (Fin 0),
                                     hops = int (length p) - 1\<rparr>))))"

text \<open>\<open>findShortestPath\<close>: the two early returns, the initialisation, then the rest.\<close>

definition findShortestPath :: "NetworkGraph \<Rightarrow> string \<Rightarrow> string \<Rightarrow> RoutingResult option option" where
  "findShortestPath g start endNode =
     (if map_of (nodes g) start = None \<or> map_of (nodes g) endNode = None then Some None
      else if start = endNode then
        Some (Some \<lparr>path = [start], totalDistance = Fin 0, hops = 0\<rparr>)
      else route_from g start endNode (init_search start (map fst (nodes g)) ([], [], [])))"




section \<open>Neighbours and broadcast\<close>

definition getConnectedNodes :: "NetworkGraph \<Rightarrow> string \<Rightarrow> string list" where
  "getConnectedNodes g k =
     (case map_of (adjacencyList g) k of None \<Rightarrow> [] | Some neighbors \<Rightarrow> map fst neighbors)"

lemma getConnectedNodes_not_key:
  "k \<notin> fst ` set (adjacencyList g) \<Longrightarrow> getConnectedNodes g k = []"
  using map_of_eq_None_iff[of "adjacencyList g" k] by (simp add: getConnectedNodes_def)

text \<open>
  Marking a node either shrinks the set of unmarked keys of the adjacency structure, or the
  node is no key and has no neighbours to enqueue.
\<close>

lemma visit_measure:
  assumes "current \<notin> set visited"
  shows "card (fst ` set (adjacencyList g) - set (set_add current visited))
           < card (fst ` set (adjacencyList g) - set visited) \<or>
         card (fst ` set (adjacencyList g) - set (set_add current visited))
           = card (fst ` set (adjacencyList g) - set visited) \<and>
         getConnectedNodes g current = []"
proof (cases "current \<in> fst ` set (adjacencyList g)")
  case True
  let ?K = "fst ` set (adjacencyList g)"
  have "?K - insert current (set visited) \<subset> ?K - set visited"
    using True assms by auto
  then have "card (?K - insert current (set visited)) < card (?K - set visited)"
    by (intro psubset_card_mono) auto
  then show ?thesis by (simp add: set_add_def assms)
next
  case False
  then have "getConnectedNodes g current = []"
    by (rule getConnectedNodes_not_key)
  moreover have "fst ` set (adjacencyList g) - insert current (set visited)
      = fst ` set (adjacencyList g) - set visited"
    using False by auto
  ultimately show ?thesis by (simp add: set_add_def assms)
qed

text \<open>
  The \<open>while (queue.length > 0)\<close> loop of \<open>broadcastPath\<close>; a node is marked when it is
  taken from the queue, so the queue may hold a node several times.
\<close>

function broadcast_loop :: "NetworkGraph \<Rightarrow> string list \<Rightarrow> string list \<Rightarrow> string list
    \<Rightarrow> string list" where
  "broadcast_loop g visited [] broadcastOrder = broadcastOrder"
| "broadcast_loop g visited (current # queue) broadcastOrder =
     (if current \<in> set visited then broadcast_loop g visited queue broadcastOrder
      else broadcast_loop g (set_add current visited)
             (queue @ filter (\<lambda>neighbor. neighbor \<notin> set (set_add current visited))
                        (getConnectedNodes g current))
             (broadcastOrder @ [current]))"
  by pat_completeness auto
termination
proof (relation "measures [\<lambda>(g, visited, queue, broadcastOrder).
                            card (fst ` set (adjacencyList g) - set visited),
                          \<lambda>(g, visited, queue, broadcastOrder). length queue]")
  show "wf (measures [\<lambda>(g, visited, queue, broadcastOrder).
                            card (fst ` set (adjacencyList g) - set visited),
                          \<lambda>(g, visited, queue, broadcastOrder). length queue])"
    by simp
next
  fix g :: NetworkGraph and visited queue broadcastOrder :: "string list" and current :: string
  assume "current \<in> set visited"
  then show "((g, visited, queue, broadcastOrder), g, visited, current # queue, broadcastOrder)
    \<in> measures [\<lambda>(g, visited, queue, broadcastOrder).
                            card (fst ` set (adjacencyList g) - set visited),
                          \<lambda>(g, visited, queue, broadcastOrder). length queue]"
    by simp
next
  fix g :: NetworkGraph and visited queue broadcastOrder :: "string list" and current :: string
  assume "current \<notin> set visited"
  then show "((g, set_add current visited,
          queue @ filter (\<lambda>neighbor. neighbor \<notin> set (set_add current visited))
                    (getConnectedNodes g current),
          broadcastOrder @ [current]),
         g, visited, current # queue, broadcastOrder)
    \<in> measures [\<lambda>(g, visited, queue, broadcastOrder).
                            card (fst ` set (adjacencyList g) - set visited),
                          \<lambda>(g, visited, queue, broadcastOrder). length queue]"
    using visit_measure[of current visited g] by auto
qed

definition broadcastPath :: "NetworkGraph \<Rightarrow> string \<Rightarrow> string list" where
  "broadcastPath g start = broadcast_loop g [] [start] []"

definition calculateOptimalRoute :: "NetworkNode list \<Rightarrow> NetworkConnection list \<Rightarrow> string \<Rightarrow> string
    \<Rightarrow> RoutingResult option option" where
  "calculateOptimalRoute ns cs from to = findShortestPath (new_NetworkGraph ns cs) from to"

definition calculateBroadcastRoute :: "NetworkNode list \<Rightarrow> NetworkConnection list \<Rightarrow> string
    \<Rightarrow> string list" where
  "calculateBroadcastRoute ns cs from = broadcastPath (new_NetworkGraph ns cs) from"

section \<open>Vocabulary of the properties\<close>

text \<open>
  The pairs \<open>(a, b)\<close> such that \<open>getConnectedNodes(a)\<close> lists \<open>b\<close>: the relation that
  \<open>broadcastPath\<close> follows.
\<close>

definition edges :: "NetworkGraph \<Rightarrow> (string \<times> string) set" where
  "edges g = {(a, b). b \<in> set (getConnectedNodes g a)}"

text \<open>The hop distance of \<open>v\<close> from \<open>s\<close>: the length of a shortest walk along \<open>edges\<close>.\<close>

definition hop_distance :: "NetworkGraph \<Rightarrow> string \<Rightarrow> string \<Rightarrow> nat" where
  "hop_distance g s v = (LEAST n. (s, v) \<in> edges g ^^ n)"

text \<open>
  The broadcast loop again, with every queue entry carrying the number of hops of the walk
  that put it into the queue. The labels are not in the source: erasing them gives
  \<open>broadcast_loop\<close> (lemma \<open>map_fst_broadcast_labelled\<close>), and the invariant \<open>bfs_inv\<close> of the
  labelled loop is what the layering proof runs on.
\<close>

function broadcast_labelled :: "NetworkGraph \<Rightarrow> string list \<Rightarrow> (string \<times> nat) list
    \<Rightarrow> (string \<times> nat) list \<Rightarrow> (string \<times> nat) list" where
  "broadcast_labelled g visited [] out = out"
| "broadcast_labelled g visited ((current, l) # queue) out =
     (if current \<in> set visited then broadcast_labelled g visited queue out
      else broadcast_labelled g (set_add current visited)
             (queue @ map (\<lambda>neighbor. (neighbor, Suc l))
                        (filter (\<lambda>neighbor. neighbor \<notin> set (set_add current visited))
                           (getConnectedNodes g current)))
             (out @ [(current, l)]))"
  by pat_completeness auto
termination
proof (relation "measures [\<lambda>(g, visited, queue, out).
                            card (fst ` set (adjacencyList g) - set visited),
                          \<lambda>(g, visited, queue, out). length queue]")
  show "wf (measures [\<lambda>(g, visited, queue, out).
                            card (fst ` set (adjacencyList g) - set visited),
                          \<lambda>(g, visited, queue, out). length queue])"
    by simp
next
  fix g :: NetworkGraph and visited :: "string list" and queue out :: "(string \<times> nat) list"
    and current :: string and l :: nat
  assume "current \<in> set visited"
  then show "((g, visited, queue, out), g, visited, (current, l) # queue, out)
    \<in> measures [\<lambda>(g, visited, queue, out).
                            card (fst ` set (adjacencyList g) - set visited),
                          \<lambda>(g, visited, queue, out). length queue]"
    by simp
next
  fix g :: NetworkGraph and visited :: "string list" and queue out :: "(string \<times> nat) list"
    and current :: string and l :: nat
  assume "current \<notin> set visited"
  then show "((g, set_add current visited,
          queue @ map (\<lambda>neighbor. (neighbor, Suc l))
                    (filter (\<lambda>neighbor. neighbor \<notin> set (set_add current visited))
                       (getConnectedNodes g current)),
          out @ [(current, l)]),
         g, visited, (current, l) # queue, out)
    \<in> measures [\<lambda>(g, visited, queue, out).
                            card (fst ` set (adjacencyList g) - set visited),
                          \<lambda>(g, visited, queue, out). length queue]"
    using visit_measure[of current visited g] by auto
qed

definition bfs_inv :: "NetworkGraph \<Rightarrow> string \<Rightarrow> string list \<Rightarrow> (string \<times> nat) list
    \<Rightarrow> (string \<times> nat) list \<Rightarrow> bool" where
  "bfs_inv g s visited queue out \<longleftrightarrow>
     set visited = fst ` set out \<and>
     distinct (map fst out) \<and>
     (\<forall>x l. (x, l) \<in> set out \<longrightarrow> (s, x) \<in> edges g ^^ l \<and> (\<forall>n<l. (s, x) \<notin> edges g ^^ n)) \<and>
     (\<forall>x l. (x, l) \<in> set queue \<longrightarrow> (s, x) \<in> edges g ^^ l) \<and>
     sorted (map snd out @ map snd queue) \<and>
     (\<forall>x l y l'. (x, l) \<in> set queue \<longrightarrow> (y, l') \<in> set queue \<longrightarrow> l \<le> Suc l') \<and>
     (\<forall>x l y. (x, l) \<in> set out \<longrightarrow> (x, y) \<in> edges g \<longrightarrow>
        y \<in> set visited \<or> (y, Suc l) \<in> set queue) \<and>
     (s \<in> set visited \<or> (s, 0) \<in> set queue) \<and>
     (\<forall>j. 0 < j \<longrightarrow> j < length out \<longrightarrow> (\<exists>i<j. (fst (out ! i), fst (out ! j)) \<in> edges g)) \<and>
     (out = [] \<and> queue = [(s, 0)] \<or>
      (\<forall>x l. (x, l) \<in> set queue \<longrightarrow> (\<exists>p l'. (p, l') \<in> set out \<and> (p, x) \<in> edges g)))"

text \<open>The entry \<open>adjacencyList.get(a)?.get(b)\<close> of the adjacency structure.\<close>

definition edge_weight :: "NetworkGraph \<Rightarrow> string \<Rightarrow> string \<Rightarrow> jsnum option" where
  "edge_weight g a b =
     (case map_of (adjacencyList g) a of None \<Rightarrow> None | Some neighbors \<Rightarrow> map_of neighbors b)"


text \<open>
  The weight of a link read from the connection list, without the adjacency structure:
  a connection joins two ids in either direction, and of several active connections that
  join the same two ids the last one of the list counts.
\<close>

definition joins :: "NetworkConnection \<Rightarrow> string \<Rightarrow> string \<Rightarrow> bool" where
  "joins c a b = (fromNodeId c = a \<and> toNodeId c = b \<or> fromNodeId c = b \<and> toNodeId c = a)"

definition last_active_link :: "NetworkConnection list \<Rightarrow> string \<Rightarrow> string
    \<Rightarrow> NetworkConnection option" where
  "last_active_link cs a b = find (\<lambda>c. isActive c \<and> joins c a b) (rev cs)"


text \<open>Two facts about the maps that the initialisation loop of the search builds.\<close>

definition zero_or_inf :: "distmap \<Rightarrow> bool" where
  "zero_or_inf d = (\<forall>k v. map_of d k = Some v \<longrightarrow> v = Fin 0 \<or> v = Infinity)"

definition all_null :: "prevmap \<Rightarrow> bool" where
  "all_null p = (\<forall>k v. map_of p k = Some v \<longrightarrow> v = None)"





subsection \<open>Sample topologies\<close>

text \<open>
  \<open>line_graph\<close> is the scenario with nodes A, B, C and the active links A-B and B-C, each
  of distance 1 and latency 10; \<open>pair_graph\<close> has the nodes A, B and the link A-B.
\<close>

definition mk_node :: "string \<Rightarrow> NetworkNode" where
  "mk_node k = \<lparr>nid = 0, nodeId = k, name = k, latitude = 0, longitude = 0, isOnline = True,
                signalStrength = 100, lastSeen = 0\<rparr>"

definition mk_conn :: "string \<Rightarrow> string \<Rightarrow> real \<Rightarrow> real \<Rightarrow> bool \<Rightarrow> NetworkConnection" where
  "mk_conn a b d l act =
     \<lparr>cid = 0, fromNodeId = a, toNodeId = b, distance = d, latency = l, isActive = act\<rparr>"

definition line_nodes :: "NetworkNode list" where
  "line_nodes = [mk_node ''A'', mk_node ''B'', mk_node ''C'']"

definition line_conns :: "NetworkConnection list" where
  "line_conns = [mk_conn ''A'' ''B'' 1 10 True, mk_conn ''B'' ''C'' 1 10 True]"

definition line_graph :: NetworkGraph where
  "line_graph = new_NetworkGraph line_nodes line_conns"

definition pair_nodes :: "NetworkNode list" where
  "pair_nodes = [mk_node ''A'', mk_node ''B'']"

definition pair_conns :: "NetworkConnection list" where
  "pair_conns = [mk_conn ''A'' ''B'' 1 10 True]"

definition pair_graph :: NetworkGraph where
  "pair_graph = new_NetworkGraph pair_nodes pair_conns"

text \<open>Two active connections that join the same two nodes with different weights.\<close>

definition dup_conns :: "NetworkConnection list" where
  "dup_conns = [mk_conn ''A'' ''B'' 1 10 True, mk_conn ''A'' ''B'' 2 10 True]"

text \<open>An active connection from Z, which is no node, to the node B.\<close>

definition dangling_conns :: "NetworkConnection list" where
  "dangling_conns = [mk_conn ''A'' ''B'' 1 10 True, mk_conn ''Z'' ''B'' 1 10 True]"



section \<open>The search loop stops at its first pass\<close>

text \<open>
  The start node is stored with distance 0, and \<open>distances.get(nodeId) || Infinity\<close> reads
  a stored 0 as \<open>Infinity\<close>. So the first selection finds no node with a distance below
  \<open>Infinity\<close>, the loop breaks, and \<open>previous\<close> is still \<open>null\<close> everywhere.
\<close>

lemma init_search_inv:
  "zero_or_inf d \<Longrightarrow> all_null p \<Longrightarrow> init_search s ks (d, p, u) = (d', p', u') \<Longrightarrow>
   zero_or_inf d' \<and> all_null p'"
proof (induction ks arbitrary: d p u)
  case Nil
  then show ?case by simp
next
  case (Cons k ks)
  have "zero_or_inf (AList.update k (if k = s then Fin 0 else Infinity) d)"
    using Cons.prems(1) by (simp add: zero_or_inf_def update_conv')
  moreover have "all_null (AList.update k None p)"
    using Cons.prems(2) by (simp add: all_null_def update_conv')
  ultimately show ?case
    using Cons.IH Cons.prems(3) by simp
qed

lemma num_or_zero_or_inf: "zero_or_inf d \<Longrightarrow> num_or (map_of d k) Infinity = Infinity"
  by (cases "map_of d k") (auto simp: zero_or_inf_def)

lemma find_min_none:
  "zero_or_inf d \<Longrightarrow> find_min d ks (cur, Infinity) = (cur, Infinity)"
  by (induction ks) (simp_all add: num_or_zero_or_inf)

lemma search_stops: "zero_or_inf d \<Longrightarrow> search adj e d p u = (d, p)"
  by (subst search.simps) (simp add: find_min_none)

lemma reconstruct_null: "reconstruct p None acc = Some acc"
  by (subst reconstruct.simps) simp

lemma reconstruct_step:
  "reconstruct p (Some c) acc = reconstruct p (str_or_null (map_of p c)) (c # acc)"
  by (subst reconstruct.simps) simp

lemma str_or_null_all_null: "all_null p \<Longrightarrow> str_or_null (map_of p k) = None"
proof (cases "map_of p k")
  case None
  then show ?thesis by simp
next
  case (Some v)
  assume "all_null p"
  with Some have "v = None" by (simp add: all_null_def)
  with Some show ?thesis by simp
qed

lemma findShortestPath_distinct:
  assumes "start \<noteq> endNode"
  shows "findShortestPath g start endNode = Some None"
proof (cases "map_of (nodes g) start = None \<or> map_of (nodes g) endNode = None")
  case True
  then show ?thesis by (auto simp: findShortestPath_def)
next
  case False
  obtain d0 p0 u0 where i: "init_search start (map fst (nodes g)) ([], [], []) = (d0, p0, u0)"
    by (cases "init_search start (map fst (nodes g)) ([], [], [])") auto
  have inv: "zero_or_inf d0 \<and> all_null p0"
    by (rule init_search_inv[OF _ _ i]) (simp_all add: zero_or_inf_def all_null_def)
  have s: "search (adjacencyList g) endNode d0 p0 u0 = (d0, p0)"
    using inv by (simp add: search_stops)
  have r: "reconstruct p0 (Some endNode) [] = Some [endNode]"
    using inv by (simp add: reconstruct_step str_or_null_all_null reconstruct_null)
  show ?thesis
    using False assms by (simp add: findShortestPath_def route_from_def i s r)
qed

lemma findShortestPath_cases:
  "findShortestPath g s e =
     (if map_of (nodes g) s = None \<or> map_of (nodes g) e = None \<or> s \<noteq> e then Some None
      else Some (Some \<lparr>path = [s], totalDistance = Fin 0, hops = 0\<rparr>))"
proof (cases "s = e")
  case True
  then show ?thesis by (simp add: findShortestPath_def)
next
  case False
  then show ?thesis by (simp add: findShortestPath_distinct)
qed

section \<open>The sample topologies, evaluated\<close>

lemma line_graph_eval:
  "line_graph =
     \<lparr>nodes = [(''A'', mk_node ''A''), (''B'', mk_node ''B''), (''C'', mk_node ''C'')],
      adjacencyList = [(''A'', [(''B'', Fin 11)]),
                       (''B'', [(''A'', Fin 11), (''C'', Fin 11)]),
                       (''C'', [(''B'', Fin 11)])]\<rparr>"
  by (simp add: line_graph_def line_nodes_def line_conns_def new_NetworkGraph_def init_node_def
      add_connection_def set_edge_def calculateEdgeWeight_def mk_node_def mk_conn_def Let_def)

lemma pair_graph_eval:
  "pair_graph =
     \<lparr>nodes = [(''A'', mk_node ''A''), (''B'', mk_node ''B'')],
      adjacencyList = [(''A'', [(''B'', Fin 11)]), (''B'', [(''A'', Fin 11)])]\<rparr>"
  by (simp add: pair_graph_def pair_nodes_def pair_conns_def new_NetworkGraph_def init_node_def
      add_connection_def set_edge_def calculateEdgeWeight_def mk_node_def mk_conn_def Let_def)

text \<open>
  The call \<open>findShortestPath(A, B)\<close> on \<open>pair_graph\<close>, step by step: the maps after the
  initialisation, the selection of the first pass, the loop, and the reconstruction.
\<close>

lemma pair_graph_trace:
  "init_search ''A'' (map fst (nodes pair_graph)) ([], [], [])
     = ([(''A'', Fin 0), (''B'', Infinity)], [(''A'', None), (''B'', None)], [''A'', ''B''])"
  "find_min [(''A'', Fin 0), (''B'', Infinity)] [''A'', ''B''] (None, Infinity) = (None, Infinity)"
  "search (adjacencyList pair_graph) ''B'' [(''A'', Fin 0), (''B'', Infinity)]
       [(''A'', None), (''B'', None)] [''A'', ''B'']
     = ([(''A'', Fin 0), (''B'', Infinity)], [(''A'', None), (''B'', None)])"
  "reconstruct [(''A'', None), (''B'', None)] (Some ''B'') [] = Some [''B'']"
proof -
  show "init_search ''A'' (map fst (nodes pair_graph)) ([], [], [])
     = ([(''A'', Fin 0), (''B'', Infinity)], [(''A'', None), (''B'', None)], [''A'', ''B''])"
    by (simp add: pair_graph_eval set_add_def)
  show m: "find_min [(''A'', Fin 0), (''B'', Infinity)] [''A'', ''B''] (None, Infinity)
      = (None, Infinity)"
    by simp
  show "search (adjacencyList pair_graph) ''B'' [(''A'', Fin 0), (''B'', Infinity)]
       [(''A'', None), (''B'', None)] [''A'', ''B'']
     = ([(''A'', Fin 0), (''B'', Infinity)], [(''A'', None), (''B'', None)])"
    by (subst search.simps) (simp add: m)
  show "reconstruct [(''A'', None), (''B'', None)] (Some ''B'') [] = Some [''B'']"
    by (simp add: reconstruct_step reconstruct_null)
qed

section \<open>Self routes\<close>

text \<open>
  C4. For every topology and every id \<open>X\<close> that is one of its vertices,
  \<open>findShortestPath(X, X)\<close> returns the result with path \<open>[X]\<close>, total distance 0 and 0
  hops, whatever the links are: the test \<open>start === end\<close> comes before the search.
\<close>

theorem findShortestPath_self:
  "map_of (nodes g) X \<noteq> None \<Longrightarrow>
   findShortestPath g X X = Some (Some \<lparr>path = [X], totalDistance = Fin 0, hops = 0\<rparr>)"
  by (simp add: findShortestPath_def)

theorem findShortestPath_self_witness:
  "map_of (nodes line_graph) ''B'' \<noteq> None \<and>
   findShortestPath line_graph ''B'' ''B''
     = Some (Some \<lparr>path = [''B''], totalDistance = Fin 0, hops = 0\<rparr>)"
  using findShortestPath_self[of line_graph "''B''"] by (simp add: line_graph_eval)

section \<open>Routes between distinct nodes\<close>

text \<open>
  C1. The claim: when \<open>findShortestPath(s, d)\<close> returns a result for distinct vertices, its
  path is a walk of least total weight from \<open>s\<close> to \<open>d\<close>, and when it returns \<open>null\<close> no
  walk from \<open>s\<close> to \<open>d\<close> exists. The code at \<open>pair_graph\<close>: A and B are vertices, B is a
  neighbour of A, and \<open>findShortestPath(A, B)\<close> returns \<open>null\<close>.
\<close>

theorem findShortestPath_misses_direct_link:
  "map_of (nodes pair_graph) ''A'' \<noteq> None \<and> map_of (nodes pair_graph) ''B'' \<noteq> None \<and>
   (''A'', ''B'') \<in> edges pair_graph \<and>
   findShortestPath pair_graph ''A'' ''B'' = Some None"
  by (simp add: findShortestPath_distinct) (simp add: pair_graph_eval edges_def getConnectedNodes_def)

text \<open>
  C3. The claim: \<open>findShortestPath(X, Y)\<close> returns \<open>null\<close> exactly when \<open>X\<close> or \<open>Y\<close> is
  not a vertex or no path joins them. The code at \<open>line_graph\<close>: A and C are vertices, the
  walk A, B, C joins them, and \<open>findShortestPath(A, C)\<close> returns \<open>null\<close>.
\<close>

theorem findShortestPath_null_despite_walk:
  "map_of (nodes line_graph) ''A'' \<noteq> None \<and> map_of (nodes line_graph) ''C'' \<noteq> None \<and>
   (''A'', ''B'') \<in> edges line_graph \<and> (''B'', ''C'') \<in> edges line_graph \<and>
   findShortestPath line_graph ''A'' ''C'' = Some None"
  by (simp add: findShortestPath_distinct) (simp add: line_graph_eval edges_def getConnectedNodes_def)

section \<open>The nodes of a constructed graph\<close>

lemma nodes_add_connection: "nodes (add_connection g c) = nodes g"
  by (simp add: add_connection_def Let_def)

lemma nodes_foldl_add_connection: "nodes (foldl add_connection g cs) = nodes g"
  by (induction cs arbitrary: g) (simp_all add: nodes_add_connection)

lemma nodes_new_NetworkGraph:
  "nodes (new_NetworkGraph ns cs) = nodes (new_NetworkGraph ns cs')"
  by (simp add: new_NetworkGraph_def nodes_foldl_add_connection)

text \<open>
  What \<open>findShortestPath\<close> returns does not depend on the connection list: between
  distinct nodes it is \<open>null\<close>, and a self route needs the node list only.
\<close>

lemma findShortestPath_ignores_connections:
  "findShortestPath (new_NetworkGraph ns cs) X Y = findShortestPath (new_NetworkGraph ns cs') X Y"
  using nodes_new_NetworkGraph[of ns cs cs'] by (simp add: findShortestPath_cases)

section \<open>The adjacency structure\<close>

text \<open>
  The constructor keeps one entry per ordered pair of ids: what \<open>new_NetworkGraph\<close> stores
  at \<open>(a, b)\<close> is the weight of the last active connection of the list that joins \<open>a\<close> and
  \<open>b\<close>, provided \<open>a\<close> is a node id; the keys of the structure are the node ids.
\<close>

lemma map_of_set_edge:
  "map_of (set_edge adj a b w) x =
     (if x = a then map_option (AList.update b w) (map_of adj a) else map_of adj x)"
  by (cases "map_of adj a") (auto simp: set_edge_def update_conv')

lemma adjacency_init_nodes:
  "map_of (adjacencyList (foldl init_node g ns)) k =
     (if k \<in> nodeId ` set ns then Some [] else map_of (adjacencyList g) k)"
  by (induction ns arbitrary: g) (auto simp: init_node_def update_conv')

lemma nodes_init_nodes:
  "(map_of (nodes (foldl init_node g ns)) k = None) =
     (map_of (nodes g) k = None \<and> k \<notin> nodeId ` set ns)"
  by (induction ns arbitrary: g) (auto simp: init_node_def update_conv')

lemma keys_add_connection:
  "(map_of (adjacencyList (add_connection g c)) k = None) = (map_of (adjacencyList g) k = None)"
  by (auto simp: add_connection_def Let_def map_of_set_edge)

lemma keys_foldl_add_connection:
  "(map_of (adjacencyList (foldl add_connection g cs)) k = None) = (map_of (adjacencyList g) k = None)"
  by (induction cs arbitrary: g) (simp_all add: keys_add_connection)

lemma edge_weight_add_connection:
  "edge_weight (add_connection g c) x y =
     (if isActive c \<and> joins c x y \<and> map_of (adjacencyList g) x \<noteq> None
      then Some (calculateEdgeWeight c) else edge_weight g x y)"
  by (auto simp: edge_weight_def add_connection_def Let_def map_of_set_edge joins_def update_conv'
           split: option.splits)

lemma last_active_link_snoc:
  "last_active_link (cs @ [c]) x y =
     (if isActive c \<and> joins c x y then Some c else last_active_link cs x y)"
  by (simp add: last_active_link_def)

lemma edge_weight_foldl_add_connection:
  "edge_weight (foldl add_connection g cs) x y =
     (case (if map_of (adjacencyList g) x = None then None else last_active_link cs x y) of
        None \<Rightarrow> edge_weight g x y
      | Some c \<Rightarrow> Some (calculateEdgeWeight c))"
proof (induction cs rule: rev_induct)
  case Nil
  then show ?case by (simp add: last_active_link_def)
next
  case (snoc c cs)
  then show ?case
    by (auto simp: edge_weight_add_connection last_active_link_snoc keys_foldl_add_connection)
qed

lemma vertex_new_NetworkGraph:
  "(map_of (nodes (new_NetworkGraph ns cs)) k \<noteq> None) = (k \<in> nodeId ` set ns)"
  by (simp add: new_NetworkGraph_def nodes_foldl_add_connection nodes_init_nodes)

lemma key_new_NetworkGraph:
  "(map_of (adjacencyList (new_NetworkGraph ns cs)) k \<noteq> None) = (k \<in> nodeId ` set ns)"
  by (simp add: new_NetworkGraph_def keys_foldl_add_connection adjacency_init_nodes)

lemma edge_weight_new_NetworkGraph:
  "edge_weight (new_NetworkGraph ns cs) a b =
     (if a \<in> nodeId ` set ns then map_option calculateEdgeWeight (last_active_link cs a b)
      else None)"
  by (simp add: new_NetworkGraph_def edge_weight_foldl_add_connection adjacency_init_nodes)
     (simp add: edge_weight_def adjacency_init_nodes split: option.splits)

lemma getConnectedNodes_edge_weight:
  "(b \<in> set (getConnectedNodes g a)) = (edge_weight g a b \<noteq> None)"
proof (cases "map_of (adjacencyList g) a")
  case None
  then show ?thesis by (simp add: getConnectedNodes_def edge_weight_def)
next
  case (Some m)
  have "(b \<in> fst ` set m) = (map_of m b \<noteq> None)"
    using map_of_eq_None_iff[of m b] by auto
  then show ?thesis using Some by (simp add: getConnectedNodes_def edge_weight_def)
qed

lemma last_active_link_sym: "last_active_link cs a b = last_active_link cs b a"
proof -
  have "(\<lambda>c. isActive c \<and> joins c a b) = (\<lambda>c. isActive c \<and> joins c b a)"
    by (auto simp: joins_def)
  then show ?thesis by (simp add: last_active_link_def)
qed

lemma find_SomeD: "find P xs = Some x \<Longrightarrow> x \<in> set xs \<and> P x"
  by (induction xs) (auto split: if_splits)

lemma last_active_link_Some:
  "last_active_link cs a b = Some c \<Longrightarrow> c \<in> set cs \<and> isActive c \<and> joins c a b"
  using find_SomeD[of "\<lambda>c. isActive c \<and> joins c a b" "rev cs" c]
  by (simp add: last_active_link_def)

lemma last_active_link_exists:
  "c \<in> set cs \<Longrightarrow> isActive c \<Longrightarrow> joins c a b \<Longrightarrow> \<exists>c'. last_active_link cs a b = Some c'"
  by (cases "last_active_link cs a b") (auto simp: last_active_link_def find_None_iff)

text \<open>
  C2 (as amended). For every node list with unique ids and every connection list whose
  endpoints all occur among the node ids: for each active connection the adjacency structure
  has an entry from \<open>fromNodeId\<close> to \<open>toNodeId\<close> and one from \<open>toNodeId\<close> to \<open>fromNodeId\<close>,
  both with the weight \<open>distance * 10 + latency / 10\<close> of the last active connection of the
  list that joins these two ids, in either direction; and every entry of the structure is
  the weight of an active connection that joins its two ids, so none arises from an inactive
  connection.
\<close>

theorem adjacency_of_connections:
  assumes "distinct (map nodeId ns)"
    and "\<forall>c \<in> set cs. fromNodeId c \<in> nodeId ` set ns \<and> toNodeId c \<in> nodeId ` set ns"
  shows "(\<forall>c \<in> set cs. isActive c \<longrightarrow>
            (\<exists>c'. last_active_link cs (fromNodeId c) (toNodeId c) = Some c' \<and>
               edge_weight (new_NetworkGraph ns cs) (fromNodeId c) (toNodeId c)
                 = Some (Fin (distance c' * 10 + latency c' / 10)) \<and>
               edge_weight (new_NetworkGraph ns cs) (toNodeId c) (fromNodeId c)
                 = Some (Fin (distance c' * 10 + latency c' / 10)))) \<and>
         (\<forall>a b w. edge_weight (new_NetworkGraph ns cs) a b = Some w \<longrightarrow>
            (\<exists>c \<in> set cs. isActive c \<and> joins c a b \<and> w = Fin (distance c * 10 + latency c / 10)))"
proof (intro conjI ballI impI allI)
  fix c assume c: "c \<in> set cs" "isActive c"
  have j: "joins c (fromNodeId c) (toNodeId c)" by (simp add: joins_def)
  obtain c' where c': "last_active_link cs (fromNodeId c) (toNodeId c) = Some c'"
    using last_active_link_exists[OF c j] by blast
  have c'': "last_active_link cs (toNodeId c) (fromNodeId c) = Some c'"
    using c' by (simp add: last_active_link_sym)
  have "edge_weight (new_NetworkGraph ns cs) (fromNodeId c) (toNodeId c)
          = Some (Fin (distance c' * 10 + latency c' / 10))"
    using assms(2) c(1) c' by (simp add: edge_weight_new_NetworkGraph calculateEdgeWeight_def)
  moreover have "edge_weight (new_NetworkGraph ns cs) (toNodeId c) (fromNodeId c)
          = Some (Fin (distance c' * 10 + latency c' / 10))"
    using assms(2) c(1) c'' by (simp add: edge_weight_new_NetworkGraph calculateEdgeWeight_def)
  ultimately show "\<exists>c'. last_active_link cs (fromNodeId c) (toNodeId c) = Some c' \<and>
               edge_weight (new_NetworkGraph ns cs) (fromNodeId c) (toNodeId c)
                 = Some (Fin (distance c' * 10 + latency c' / 10)) \<and>
               edge_weight (new_NetworkGraph ns cs) (toNodeId c) (fromNodeId c)
                 = Some (Fin (distance c' * 10 + latency c' / 10))"
    using c' by blast
next
  fix a b w assume "edge_weight (new_NetworkGraph ns cs) a b = Some w"
  then obtain c where "last_active_link cs a b = Some c" and "w = calculateEdgeWeight c"
    by (auto simp: edge_weight_new_NetworkGraph split: if_splits)
  then show "\<exists>c \<in> set cs. isActive c \<and> joins c a b \<and> w = Fin (distance c * 10 + latency c / 10)"
    using last_active_link_Some[of cs a b c] by (auto simp: calculateEdgeWeight_def)
qed

text \<open>
  Switching off the later of two connections that join the same nodes lowers the entry to
  the weight of the earlier one.
\<close>

lemma switching_off_lowers_weight:
  "edge_weight (new_NetworkGraph pair_nodes dup_conns) ''A'' ''B'' = Some (Fin 21) \<and>
   edge_weight (new_NetworkGraph pair_nodes
     [mk_conn ''A'' ''B'' 1 10 True, mk_conn ''A'' ''B'' 2 10 False]) ''A'' ''B'' = Some (Fin 11)"
  by (simp add: pair_nodes_def dup_conns_def mk_node_def mk_conn_def edge_weight_def
      new_NetworkGraph_def init_node_def add_connection_def set_edge_def calculateEdgeWeight_def
      Let_def)

text \<open>
  C2 as stated fails: in \<open>dup_conns\<close> the first connection is active, joins A and B and has
  weight 11, and the entry from A to B is 21, the weight of the second connection.
\<close>

theorem later_link_overwrites_weight:
  "distinct (map nodeId pair_nodes) \<and>
   set (map fromNodeId dup_conns) \<subseteq> set (map nodeId pair_nodes) \<and>
   set (map toNodeId dup_conns) \<subseteq> set (map nodeId pair_nodes) \<and>
   isActive (dup_conns ! 0) \<and> fromNodeId (dup_conns ! 0) = ''A'' \<and> toNodeId (dup_conns ! 0) = ''B'' \<and>
   distance (dup_conns ! 0) * 10 + latency (dup_conns ! 0) / 10 = 11 \<and>
   edge_weight (new_NetworkGraph pair_nodes dup_conns) ''A'' ''B'' = Some (Fin 21)"
  by (simp add: pair_nodes_def dup_conns_def mk_node_def mk_conn_def edge_weight_def
      new_NetworkGraph_def init_node_def add_connection_def set_edge_def calculateEdgeWeight_def
      Let_def)

theorem adjacency_of_connections_witness:
  "distinct (map nodeId pair_nodes) \<and>
   list_all (\<lambda>c. fromNodeId c \<in> nodeId ` set pair_nodes \<and> toNodeId c \<in> nodeId ` set pair_nodes)
     dup_conns \<and>
   (\<exists>c'. last_active_link dup_conns ''A'' ''B'' = Some c' \<and>
      edge_weight (new_NetworkGraph pair_nodes dup_conns) ''A'' ''B''
        = Some (Fin (distance c' * 10 + latency c' / 10)) \<and>
      edge_weight (new_NetworkGraph pair_nodes dup_conns) ''B'' ''A''
        = Some (Fin (distance c' * 10 + latency c' / 10)))"
proof -
  have h1: "distinct (map nodeId pair_nodes)"
    by (simp add: pair_nodes_def mk_node_def)
  have h2: "\<forall>c \<in> set dup_conns.
      fromNodeId c \<in> nodeId ` set pair_nodes \<and> toNodeId c \<in> nodeId ` set pair_nodes"
    by (simp add: pair_nodes_def dup_conns_def mk_node_def mk_conn_def)
  have h2': "list_all (\<lambda>c. fromNodeId c \<in> nodeId ` set pair_nodes \<and> toNodeId c \<in> nodeId ` set pair_nodes)
     dup_conns"
    using h2 by (simp add: list_all_iff)
  have m: "dup_conns ! 0 \<in> set dup_conns \<and> isActive (dup_conns ! 0) \<and>
           fromNodeId (dup_conns ! 0) = ''A'' \<and> toNodeId (dup_conns ! 0) = ''B''"
    by (simp add: dup_conns_def mk_conn_def)
  have "\<forall>c \<in> set dup_conns. isActive c \<longrightarrow>
            (\<exists>c'. last_active_link dup_conns (fromNodeId c) (toNodeId c) = Some c' \<and>
               edge_weight (new_NetworkGraph pair_nodes dup_conns) (fromNodeId c) (toNodeId c)
                 = Some (Fin (distance c' * 10 + latency c' / 10)) \<and>
               edge_weight (new_NetworkGraph pair_nodes dup_conns) (toNodeId c) (fromNodeId c)
                 = Some (Fin (distance c' * 10 + latency c' / 10)))"
    using adjacency_of_connections[OF h1 h2] by (rule conjunct1)
  then have "\<exists>c'. last_active_link dup_conns ''A'' ''B'' = Some c' \<and>
      edge_weight (new_NetworkGraph pair_nodes dup_conns) ''A'' ''B''
        = Some (Fin (distance c' * 10 + latency c' / 10)) \<and>
      edge_weight (new_NetworkGraph pair_nodes dup_conns) ''B'' ''A''
        = Some (Fin (distance c' * 10 + latency c' / 10))"
    using m by force
  then show ?thesis using h1 h2' by simp
qed

section \<open>The search from a sound state\<close>




lemma num_or_Some_zero: "num_or (Some v) (Fin 0) = v"
  by simp

































section \<open>All destinations\<close>




section \<open>Broadcast from an unknown source\<close>

text \<open>
  C9. For every topology and every id \<open>S\<close> that is not one of its vertices,
  \<open>broadcastPath(S)\<close> returns the one-element sequence \<open>[S]\<close>.
\<close>

theorem broadcastPath_unknown_source:
  assumes "map_of (nodes (new_NetworkGraph ns cs)) S = None"
  shows "broadcastPath (new_NetworkGraph ns cs) S = [S]"
proof -
  have "map_of (adjacencyList (new_NetworkGraph ns cs)) S = None"
    using assms vertex_new_NetworkGraph[of ns cs S] key_new_NetworkGraph[of ns cs S] by simp
  then have "getConnectedNodes (new_NetworkGraph ns cs) S = []"
    by (simp add: getConnectedNodes_def)
  then show ?thesis by (simp add: broadcastPath_def set_add_def)
qed

theorem broadcastPath_unknown_source_witness:
  "map_of (nodes (new_NetworkGraph line_nodes line_conns)) ''Z'' = None \<and>
   broadcastPath (new_NetworkGraph line_nodes line_conns) ''Z'' = [''Z'']"
proof -
  have h: "map_of (nodes (new_NetworkGraph line_nodes line_conns)) ''Z'' = None"
    using line_graph_eval by (simp add: line_graph_def)
  show ?thesis using h broadcastPath_unknown_source[OF h] by simp
qed

section \<open>Broadcast order\<close>

text \<open>
  The labelled loop computes the same sequence as \<open>broadcast_loop\<close>, and its invariant
  holds at the start, after a skipped entry and after a marked one. The label of a marked
  node is its hop distance: every node with a shorter walk was marked before.
\<close>

lemma map_fst_broadcast_labelled:
  "map fst (broadcast_labelled g visited queue out)
     = broadcast_loop g visited (map fst queue) (map fst out)"
proof (induction g visited queue out rule: broadcast_labelled.induct)
  case (1 g visited out)
  then show ?case by simp
next
  case (2 g visited current l queue out)
  then show ?case by (simp add: filter_map comp_def)
qed

lemma bfs_inv_init: "bfs_inv g s [] [(s, 0)] []"
  by (simp add: bfs_inv_def)

lemma head_label_min:
  assumes "sorted (map snd out @ map snd ((c, l) # q))" and "(y, l') \<in> set ((c, l) # q)"
  shows "l \<le> l'"
  using assms by (force simp: sorted_append)

lemma out_label_le_head:
  assumes "sorted (map snd out @ map snd ((c, l) # q))" and "(y, l') \<in> set out"
  shows "l' \<le> l"
  using assms by (force simp: sorted_append)

lemma bfs_inv_visited: "bfs_inv g s vis q out \<Longrightarrow> set vis = fst ` set out"
  unfolding bfs_inv_def by (elim conjE)

lemma bfs_inv_distinct: "bfs_inv g s vis q out \<Longrightarrow> distinct (map fst out)"
  unfolding bfs_inv_def by (elim conjE)

lemma bfs_inv_out:
  "bfs_inv g s vis q out \<Longrightarrow>
   \<forall>x l. (x, l) \<in> set out \<longrightarrow> (s, x) \<in> edges g ^^ l \<and> (\<forall>n<l. (s, x) \<notin> edges g ^^ n)"
  unfolding bfs_inv_def by (elim conjE)

lemma bfs_inv_out_walk: "bfs_inv g s vis q out \<Longrightarrow> (x, l) \<in> set out \<Longrightarrow> (s, x) \<in> edges g ^^ l"
  using bfs_inv_out by blast

lemma bfs_inv_out_least:
  "bfs_inv g s vis q out \<Longrightarrow> (x, l) \<in> set out \<Longrightarrow> n < l \<Longrightarrow> (s, x) \<notin> edges g ^^ n"
  using bfs_inv_out by blast

lemma bfs_inv_queue_walk [rule_format]:
  "bfs_inv g s vis q out \<Longrightarrow> \<forall>x l. (x, l) \<in> set q \<longrightarrow> (s, x) \<in> edges g ^^ l"
  unfolding bfs_inv_def by (elim conjE)

lemma bfs_inv_sorted: "bfs_inv g s vis q out \<Longrightarrow> sorted (map snd out @ map snd q)"
  unfolding bfs_inv_def by (elim conjE)

lemma bfs_inv_band [rule_format]:
  "bfs_inv g s vis q out \<Longrightarrow>
   \<forall>x l y l'. (x, l) \<in> set q \<longrightarrow> (y, l') \<in> set q \<longrightarrow> l \<le> Suc l'"
  unfolding bfs_inv_def by (elim conjE)

lemma bfs_inv_closed [rule_format]:
  "bfs_inv g s vis q out \<Longrightarrow>
   \<forall>x l y. (x, l) \<in> set out \<longrightarrow> (x, y) \<in> edges g \<longrightarrow>
     y \<in> set vis \<or> (y, Suc l) \<in> set q"
  unfolding bfs_inv_def by (elim conjE)

lemma bfs_inv_source: "bfs_inv g s vis q out \<Longrightarrow> s \<in> set vis \<or> (s, 0) \<in> set q"
  unfolding bfs_inv_def by (elim conjE)

lemma bfs_inv_parent_out [rule_format]:
  "bfs_inv g s vis q out \<Longrightarrow>
   \<forall>j. 0 < j \<longrightarrow> j < length out \<longrightarrow> (\<exists>i<j. (fst (out ! i), fst (out ! j)) \<in> edges g)"
  unfolding bfs_inv_def by (elim conjE)

lemma bfs_inv_parent_queue:
  "bfs_inv g s vis q out \<Longrightarrow>
   out = [] \<and> q = [(s, 0)] \<or>
   (\<forall>x l. (x, l) \<in> set q \<longrightarrow> (\<exists>p l'. (p, l') \<in> set out \<and> (p, x) \<in> edges g))"
  unfolding bfs_inv_def by (elim conjE)

lemma settled_below:
  assumes inv: "bfs_inv g s vis ((c, l) # q) out"
  shows "k < l \<Longrightarrow> (s, u) \<in> edges g ^^ k \<Longrightarrow> u \<in> set vis"
proof (induction k arbitrary: u)
  case 0
  then have u: "u = s" by simp
  have "(s, 0) \<notin> set ((c, l) # q)"
  proof
    assume "(s, 0) \<in> set ((c, l) # q)"
    then have "l \<le> 0" by (rule head_label_min[OF bfs_inv_sorted[OF inv]])
    with 0 show False by simp
  qed
  then show ?case using u bfs_inv_source[OF inv] by blast
next
  case (Suc k)
  from Suc.prems(2) obtain u' where u': "(s, u') \<in> edges g ^^ k" and e: "(u', u) \<in> edges g"
    by auto
  have "u' \<in> set vis" using Suc.IH[OF _ u'] Suc.prems(1) by simp
  then obtain l' where l': "(u', l') \<in> set out"
    using bfs_inv_visited[OF inv] by auto
  have le: "l' \<le> k"
    using bfs_inv_out_least[OF inv l', of k] u' by (meson not_le)
  have "(u, Suc l') \<notin> set ((c, l) # q)"
  proof
    assume "(u, Suc l') \<in> set ((c, l) # q)"
    then have "l \<le> Suc l'" by (rule head_label_min[OF bfs_inv_sorted[OF inv]])
    with le Suc.prems(1) show False by simp
  qed
  then show ?case using bfs_inv_closed[OF inv l' e] by blast
qed

lemma bfs_inv_skip:
  assumes inv: "bfs_inv g s vis ((c, l) # q) out" and c: "c \<in> set vis"
  shows "bfs_inv g s vis q out"
  unfolding bfs_inv_def
proof (intro conjI allI impI)
  show "set vis = fst ` set out" by (rule bfs_inv_visited[OF inv])
  show "distinct (map fst out)" by (rule bfs_inv_distinct[OF inv])
  show "(s, x) \<in> edges g ^^ n" if "(x, n) \<in> set out" for x n
    using that by (rule bfs_inv_out_walk[OF inv])
  show "(s, x) \<notin> edges g ^^ n" if "(x, m) \<in> set out" "n < m" for x m n
    using that by (rule bfs_inv_out_least[OF inv])
  show "(s, x) \<in> edges g ^^ n" if "(x, n) \<in> set q" for x n
    using that bfs_inv_queue_walk[OF inv, of x n] by simp
  show "sorted (map snd out @ map snd q)"
    using bfs_inv_sorted[OF inv] by (simp add: sorted_append)
  show "n \<le> Suc m" if "(x, n) \<in> set q" "(y, m) \<in> set q" for x n y m
    using that bfs_inv_band[OF inv, of x n y m] by simp
  show "y \<in> set vis \<or> (y, Suc n) \<in> set q" if "(x, n) \<in> set out" "(x, y) \<in> edges g" for x n y
    using bfs_inv_closed[OF inv that] c by auto
  show "s \<in> set vis \<or> (s, 0) \<in> set q"
    using bfs_inv_source[OF inv] c by auto
  show "\<exists>i<j. (fst (out ! i), fst (out ! j)) \<in> edges g" if "0 < j" "j < length out" for j
    using that by (rule bfs_inv_parent_out[OF inv])
  have "out \<noteq> []" using c bfs_inv_visited[OF inv] by auto
  then show "out = [] \<and> q = [(s, 0)] \<or>
      (\<forall>x l. (x, l) \<in> set q \<longrightarrow> (\<exists>p l'. (p, l') \<in> set out \<and> (p, x) \<in> edges g))"
    using bfs_inv_parent_queue[OF inv] by auto
qed

lemma sorted_map_const: "sorted (map (\<lambda>_. (k::nat)) xs)"
  by (induction xs) auto

lemma bfs_inv_visit:
  assumes inv: "bfs_inv g s vis ((c, l) # q) out" and c: "c \<notin> set vis"
  shows "bfs_inv g s (set_add c vis)
           (q @ map (\<lambda>neighbor. (neighbor, Suc l))
                  (filter (\<lambda>neighbor. neighbor \<notin> set (set_add c vis)) (getConnectedNodes g c)))
           (out @ [(c, l)])"
proof -
  define new where "new = map (\<lambda>neighbor. (neighbor, Suc l))
      (filter (\<lambda>neighbor. neighbor \<notin> set (set_add c vis)) (getConnectedNodes g c))"
  have sv: "set (set_add c vis) = insert c (set vis)"
    by (simp add: set_add_def c)
  have new_mem: "((y, m) \<in> set new) = (m = Suc l \<and> (c, y) \<in> edges g \<and> y \<noteq> c \<and> y \<notin> set vis)"
    for y m
    by (auto simp: new_def sv edges_def)
  have vo: "set vis = fst ` set out" by (rule bfs_inv_visited[OF inv])
  have cw: "(s, c) \<in> edges g ^^ l"
    by (rule bfs_inv_queue_walk[OF inv]) simp
  have srt: "sorted (map snd out @ map snd ((c, l) # q))" by (rule bfs_inv_sorted[OF inv])
  have q_le: "n \<le> Suc l" if "(x, n) \<in> set q" for x n
    using bfs_inv_band[OF inv, of x n c l] that by simp
  have q_ge: "l \<le> n" if "(x, n) \<in> set q" for x n
    using head_label_min[OF srt, of x n] that by simp
  have out_le: "n \<le> l" if "(x, n) \<in> set out" for x n
    using out_label_le_head[OF srt that] .
  have g1: "set (set_add c vis) = fst ` set (out @ [(c, l)])"
    by (simp add: sv vo)
  have g2: "distinct (map fst (out @ [(c, l)]))"
    using bfs_inv_distinct[OF inv] c vo by simp
  have g3: "(s, x) \<in> edges g ^^ n" if "(x, n) \<in> set (out @ [(c, l)])" for x n
    using that bfs_inv_out_walk[OF inv, of x n] cw by auto
  have g4: "(s, x) \<notin> edges g ^^ n" if "(x, m) \<in> set (out @ [(c, l)])" "n < m" for x m n
  proof (cases "(x, m) \<in> set out")
    case True
    then show ?thesis using bfs_inv_out_least[OF inv] that(2) by blast
  next
    case False
    with that(1) have "x = c" "m = l" by auto
    then show ?thesis using settled_below[OF inv, of n c] that(2) c by blast
  qed
  have g5: "(s, x) \<in> edges g ^^ n" if "(x, n) \<in> set (q @ new)" for x n
  proof (cases "(x, n) \<in> set q")
    case True
    then show ?thesis using bfs_inv_queue_walk[OF inv, of x n] by simp
  next
    case False
    with that have "n = Suc l" "(c, x) \<in> edges g" by (auto simp: new_mem)
    then show ?thesis using cw by auto
  qed
  have g6: "sorted (map snd (out @ [(c, l)]) @ map snd (q @ new))"
  proof -
    have a: "sorted (map snd out @ l # map snd q)" using srt by simp
    have b: "sorted (map snd new)"
      by (simp add: new_def comp_def sorted_map_const)
    have d: "\<forall>x \<in> set (map snd out @ l # map snd q). \<forall>y \<in> set (map snd new). x \<le> y"
      using q_le out_le by (fastforce simp: new_def)
    have "sorted ((map snd out @ l # map snd q) @ map snd new)"
      using a b d by (simp only: sorted_append) simp
    then show ?thesis by simp
  qed
  have g7: "n \<le> Suc m" if "(x, n) \<in> set (q @ new)" "(y, m) \<in> set (q @ new)" for x n y m
  proof -
    have n: "n \<le> Suc l" using that(1) q_le by (auto simp: new_mem)
    have m: "l \<le> m" using that(2) q_ge by (auto simp: new_mem)
    show ?thesis
    proof (cases "(x, n) \<in> set q \<and> (y, m) \<in> set new")
      case True
      then show ?thesis using n by (auto simp: new_mem)
    next
      case False
      then show ?thesis
        using that n m bfs_inv_band[OF inv, of x n y m] by (auto simp: new_mem)
    qed
  qed
  have g8: "y \<in> set (set_add c vis) \<or> (y, Suc n) \<in> set (q @ new)"
    if "(x, n) \<in> set (out @ [(c, l)])" "(x, y) \<in> edges g" for x n y
  proof (cases "(x, n) \<in> set out")
    case True
    then show ?thesis using bfs_inv_closed[OF inv True that(2)] by (auto simp: sv)
  next
    case False
    with that(1) have "x = c" "n = l" by auto
    then show ?thesis using that(2) by (auto simp: sv new_mem)
  qed
  have g9: "s \<in> set (set_add c vis) \<or> (s, 0) \<in> set (q @ new)"
    using bfs_inv_source[OF inv] by (auto simp: sv)
  have pq: "out = [] \<and> (c, l) # q = [(s, 0)] \<or>
      (\<forall>x n. (x, n) \<in> set ((c, l) # q) \<longrightarrow> (\<exists>p l'. (p, l') \<in> set out \<and> (p, x) \<in> edges g))"
    by (rule bfs_inv_parent_queue[OF inv])
  have g10: "\<exists>i<j. (fst ((out @ [(c, l)]) ! i), fst ((out @ [(c, l)]) ! j)) \<in> edges g"
    if j0: "0 < j" and jl: "j < length (out @ [(c, l)])" for j
  proof (cases "j < length out")
    case True
    then obtain i where i: "i < j" "(fst (out ! i), fst (out ! j)) \<in> edges g"
      using bfs_inv_parent_out[OF inv j0] by blast
    have "(out @ [(c, l)]) ! i = out ! i" "(out @ [(c, l)]) ! j = out ! j"
      using i(1) True by (simp_all add: nth_append)
    then show ?thesis using i by metis
  next
    case False
    with j0 jl have j: "j = length out" "out \<noteq> []" by auto
    have "(c, l) \<in> set ((c, l) # q)" by simp
    with pq j(2) obtain p l' where p: "(p, l') \<in> set out" "(p, c) \<in> edges g" by blast
    then obtain i where i: "i < length out" "out ! i = (p, l')"
      by (auto simp: in_set_conv_nth)
    have "(out @ [(c, l)]) ! i = (p, l')" "(out @ [(c, l)]) ! j = (c, l)"
      using i j(1) by (simp_all add: nth_append)
    then have "(fst ((out @ [(c, l)]) ! i), fst ((out @ [(c, l)]) ! j)) \<in> edges g"
      using p(2) by simp
    then show ?thesis using i(1) j(1) by blast
  qed
  have g11: "\<exists>p l'. (p, l') \<in> set (out @ [(c, l)]) \<and> (p, x) \<in> edges g"
    if xn: "(x, n) \<in> set (q @ new)" for x n
  proof (cases "(x, n) \<in> set q")
    case True
    then have "(x, n) \<in> set ((c, l) # q)" and "(c, l) # q \<noteq> [(s, 0)]" by auto
    with pq obtain p l' where "(p, l') \<in> set out" "(p, x) \<in> edges g" by blast
    then have "(p, l') \<in> set (out @ [(c, l)]) \<and> (p, x) \<in> edges g" by simp
    then show ?thesis by blast
  next
    case False
    with xn have "(c, x) \<in> edges g" by (auto simp: new_mem)
    moreover have "(c, l) \<in> set (out @ [(c, l)])" by simp
    ultimately show ?thesis by blast
  qed
  have "bfs_inv g s (set_add c vis) (q @ new) (out @ [(c, l)])"
    unfolding bfs_inv_def
    using g1 g2 g3 g4 g5 g6 g7 g8 g9 g10 g11 by blast
  then show ?thesis by (simp only: new_def)
qed

lemma bfs_inv_final:
  "bfs_inv g s vis q out \<Longrightarrow> \<exists>vis'. bfs_inv g s vis' [] (broadcast_labelled g vis q out)"
proof (induction g vis q out rule: broadcast_labelled.induct)
  case (1 g visited out)
  then show ?case by auto
next
  case (2 g visited current l queue out)
  show ?case
  proof (cases "current \<in> set visited")
    case True
    then show ?thesis
      using "2.IH"(1)[OF True bfs_inv_skip[OF "2.prems" True]] by simp
  next
    case False
    then show ?thesis
      using "2.IH"(2)[OF False bfs_inv_visit[OF "2.prems" False]] by simp
  qed
qed

lemma broadcastPath_labelled:
  "\<exists>vis out. bfs_inv g s vis [] out \<and> broadcastPath g s = map fst out"
proof -
  obtain vis where "bfs_inv g s vis [] (broadcast_labelled g [] [(s, 0)] [])"
    using bfs_inv_final[OF bfs_inv_init] by blast
  moreover have "map fst (broadcast_labelled g [] [(s, 0)] [])
      = broadcast_loop g [] (map fst [(s, 0::nat)]) (map fst ([] :: (string \<times> nat) list))"
    by (rule map_fst_broadcast_labelled)
  then have "broadcastPath g s = map fst (broadcast_labelled g [] [(s, 0)] [])"
    by (simp only: broadcastPath_def list.map fst_conv)
  ultimately show ?thesis by blast
qed

lemma final_reachable:
  assumes inv: "bfs_inv g s vis [] out"
  shows "fst ` set out = {v. (s, v) \<in> (edges g)\<^sup>*}"
proof (intro set_eqI iffI)
  fix v assume "v \<in> fst ` set out"
  then obtain l where "(v, l) \<in> set out" by auto
  then have "(s, v) \<in> edges g ^^ l" by (rule bfs_inv_out_walk[OF inv])
  then show "v \<in> {v. (s, v) \<in> (edges g)\<^sup>*}"
    using relpow_imp_rtrancl by fast
next
  fix v assume "v \<in> {v. (s, v) \<in> (edges g)\<^sup>*}"
  then have "(s, v) \<in> (edges g)\<^sup>*" by simp
  then have "v \<in> set vis"
  proof (induction rule: rtrancl_induct)
    case base
    then show ?case using bfs_inv_source[OF inv] by simp
  next
    case (step y z)
    then obtain l where "(y, l) \<in> set out"
      using bfs_inv_visited[OF inv] by auto
    then show ?case using bfs_inv_closed[OF inv _ step.hyps(2)] by fastforce
  qed
  then show "v \<in> fst ` set out" using bfs_inv_visited[OF inv] by simp
qed

lemma final_hop_distance:
  assumes inv: "bfs_inv g s vis q out" and m: "(x, l) \<in> set out"
  shows "hop_distance g s x = l"
  unfolding hop_distance_def
proof (rule Least_equality)
  show "(s, x) \<in> edges g ^^ l" using m by (rule bfs_inv_out_walk[OF inv])
next
  fix n assume "(s, x) \<in> edges g ^^ n"
  then show "l \<le> n" using bfs_inv_out_least[OF inv m, of n] by (meson not_le)
qed

lemma final_sorted:
  assumes inv: "bfs_inv g s vis [] out"
  shows "sorted (map (hop_distance g s) (map fst out))"
proof -
  have "\<forall>p \<in> set out. hop_distance g s (fst p) = snd p"
    using final_hop_distance[OF inv] by auto
  then have eq: "map (hop_distance g s) (map fst out) = map snd out"
    by simp
  have "sorted (map snd out)" using bfs_inv_sorted[OF inv] by simp
  then show ?thesis unfolding eq .
qed

lemma broadcastPath_set: "set (broadcastPath g s) = {v. (s, v) \<in> (edges g)\<^sup>*}"
proof -
  obtain vis out where "bfs_inv g s vis [] out" "broadcastPath g s = map fst out"
    using broadcastPath_labelled by blast
  then show ?thesis using final_reachable by simp
qed

text \<open>
  C5. For every topology and every source \<open>s\<close>, \<open>broadcastPath(s)\<close> lists each node that
  is reachable from \<open>s\<close> exactly once and no other node, the hop distance from \<open>s\<close> never
  decreases along the sequence, and every node after the first is a neighbour of a node
  that stands earlier in the sequence.
\<close>

theorem broadcastPath_breadth_first:
  "distinct (broadcastPath g s) \<and>
   set (broadcastPath g s) = {v. (s, v) \<in> (edges g)\<^sup>*} \<and>
   sorted (map (hop_distance g s) (broadcastPath g s)) \<and>
   (\<forall>j. 0 < j \<longrightarrow> j < length (broadcastPath g s) \<longrightarrow>
      (\<exists>i<j. (broadcastPath g s ! i, broadcastPath g s ! j) \<in> edges g))"
proof -
  obtain vis out where inv: "bfs_inv g s vis [] out" and b: "broadcastPath g s = map fst out"
    using broadcastPath_labelled by blast
  have "distinct (map fst out)" by (rule bfs_inv_distinct[OF inv])
  moreover have "set (map fst out) = {v. (s, v) \<in> (edges g)\<^sup>*}"
    using final_reachable[OF inv] by simp
  moreover have "sorted (map (hop_distance g s) (map fst out))" by (rule final_sorted[OF inv])
  moreover have "\<exists>i<j. (map fst out ! i, map fst out ! j) \<in> edges g"
    if j0: "0 < j" and jl: "j < length (map fst out)" for j
  proof -
    from jl have jl': "j < length out" by simp
    obtain i where i: "i < j" "(fst (out ! i), fst (out ! j)) \<in> edges g"
      using bfs_inv_parent_out[OF inv j0 jl'] by blast
    then have "(map fst out ! i, map fst out ! j) \<in> edges g" using jl' by simp
    then show ?thesis using i(1) by blast
  qed
  ultimately show ?thesis unfolding b by blast
qed

theorem broadcastPath_breadth_first_witness:
  "broadcastPath line_graph ''A'' = [''A'', ''B'', ''C''] \<and>
   {v. (''A'', v) \<in> (edges line_graph)\<^sup>*} = {''A'', ''B'', ''C''} \<and>
   sorted (map (hop_distance line_graph ''A'') [''A'', ''B'', ''C'']) \<and>
   (\<exists>i<2. ([''A'', ''B'', ''C''] ! i, [''A'', ''B'', ''C''] ! 2) \<in> edges line_graph)"
proof -
  have e: "broadcastPath line_graph ''A'' = [''A'', ''B'', ''C'']"
    by (simp add: broadcastPath_def line_graph_eval set_add_def getConnectedNodes_def)
  have t: "distinct [''A'', ''B'', ''C''] \<and>
   set [''A'', ''B'', ''C''] = {v. (''A'', v) \<in> (edges line_graph)\<^sup>*} \<and>
   sorted (map (hop_distance line_graph ''A'') [''A'', ''B'', ''C'']) \<and>
   (\<forall>j. 0 < j \<longrightarrow> j < length [''A'', ''B'', ''C''] \<longrightarrow>
      (\<exists>i<j. ([''A'', ''B'', ''C''] ! i, [''A'', ''B'', ''C''] ! j) \<in> edges line_graph))"
    using broadcastPath_breadth_first[of line_graph "''A''"] unfolding e .
  then have "\<forall>j. 0 < j \<longrightarrow> j < length [''A'', ''B'', ''C''] \<longrightarrow>
      (\<exists>i<j. ([''A'', ''B'', ''C''] ! i, [''A'', ''B'', ''C''] ! j) \<in> edges line_graph)"
    by (elim conjE)
  then have "0 < (2::nat) \<longrightarrow> 2 < length [''A'', ''B'', ''C''] \<longrightarrow>
      (\<exists>i<2. ([''A'', ''B'', ''C''] ! i, [''A'', ''B'', ''C''] ! 2) \<in> edges line_graph)"
    by (rule spec)
  then have "\<exists>i<2. ([''A'', ''B'', ''C''] ! i, [''A'', ''B'', ''C''] ! 2) \<in> edges line_graph"
    by simp
  moreover have "{v. (''A'', v) \<in> (edges line_graph)\<^sup>*} = {''A'', ''B'', ''C''}"
    using t by auto
  ultimately show ?thesis using e t by blast
qed

section \<open>Connections from an id that is no node\<close>

text \<open>
  C10. For an active connection whose \<open>fromNodeId\<close> is no node id while its \<open>toNodeId\<close>
  is one, the constructor inserts the entry on the side of \<open>toNodeId\<close> only:
  \<open>getConnectedNodes(toNodeId)\<close> lists \<open>fromNodeId\<close>, which is no vertex and has no
  neighbours, and \<open>broadcastPath\<close> from any node connected to \<open>toNodeId\<close> contains
  \<open>fromNodeId\<close>.
\<close>

theorem dangling_link_is_followed:
  assumes "c \<in> set cs" and "isActive c"
    and "fromNodeId c \<notin> nodeId ` set ns" and "toNodeId c \<in> nodeId ` set ns"
    and "(v, toNodeId c) \<in> (edges (new_NetworkGraph ns cs))\<^sup>*"
  shows "fromNodeId c \<in> set (getConnectedNodes (new_NetworkGraph ns cs) (toNodeId c)) \<and>
         getConnectedNodes (new_NetworkGraph ns cs) (fromNodeId c) = [] \<and>
         map_of (nodes (new_NetworkGraph ns cs)) (fromNodeId c) = None \<and>
         fromNodeId c \<in> set (broadcastPath (new_NetworkGraph ns cs) v)"
proof -
  let ?G = "new_NetworkGraph ns cs"
  have "joins c (toNodeId c) (fromNodeId c)" by (simp add: joins_def)
  then obtain c' where "last_active_link cs (toNodeId c) (fromNodeId c) = Some c'"
    using last_active_link_exists[OF assms(1,2)] by blast
  then have "edge_weight ?G (toNodeId c) (fromNodeId c) \<noteq> None"
    using assms(4) by (simp add: edge_weight_new_NetworkGraph)
  then have a: "fromNodeId c \<in> set (getConnectedNodes ?G (toNodeId c))"
    by (simp add: getConnectedNodes_edge_weight)
  have "map_of (adjacencyList ?G) (fromNodeId c) = None"
    using assms(3) key_new_NetworkGraph[of ns cs "fromNodeId c"] by simp
  then have b: "getConnectedNodes ?G (fromNodeId c) = []"
    by (simp add: getConnectedNodes_def)
  have d: "map_of (nodes ?G) (fromNodeId c) = None"
    using assms(3) vertex_new_NetworkGraph[of ns cs "fromNodeId c"] by simp
  have "(toNodeId c, fromNodeId c) \<in> edges ?G" using a by (simp add: edges_def)
  with assms(5) have "(v, fromNodeId c) \<in> (edges ?G)\<^sup>*" by simp
  then have "fromNodeId c \<in> set (broadcastPath ?G v)" by (simp add: broadcastPath_set)
  with a b d show ?thesis by simp
qed

theorem dangling_link_is_followed_witness:
  "mk_conn ''Z'' ''B'' 1 10 True \<in> set dangling_conns \<and>
   ''Z'' \<notin> nodeId ` set pair_nodes \<and> ''B'' \<in> nodeId ` set pair_nodes \<and>
   (''A'', ''B'') \<in> (edges (new_NetworkGraph pair_nodes dangling_conns))\<^sup>* \<and>
   ''Z'' \<in> set (getConnectedNodes (new_NetworkGraph pair_nodes dangling_conns) ''B'') \<and>
   getConnectedNodes (new_NetworkGraph pair_nodes dangling_conns) ''Z'' = [] \<and>
   ''Z'' \<in> set (broadcastPath (new_NetworkGraph pair_nodes dangling_conns) ''A'')"
proof -
  let ?c = "mk_conn ''Z'' ''B'' 1 10 True"
  have f: "fromNodeId ?c = ''Z''" and t: "toNodeId ?c = ''B''"
    by (simp_all add: mk_conn_def)
  have h1: "?c \<in> set dangling_conns" by (simp add: dangling_conns_def)
  have h2: "isActive ?c" by (simp add: mk_conn_def)
  have h3: "fromNodeId ?c \<notin> nodeId ` set pair_nodes"
    unfolding f by (simp add: pair_nodes_def mk_node_def)
  have h4: "toNodeId ?c \<in> nodeId ` set pair_nodes"
    unfolding t by (simp add: pair_nodes_def mk_node_def)
  have "(''A'', ''B'') \<in> edges (new_NetworkGraph pair_nodes dangling_conns)"
    by (simp add: edges_def getConnectedNodes_def pair_nodes_def dangling_conns_def mk_node_def
        mk_conn_def new_NetworkGraph_def init_node_def add_connection_def set_edge_def
        calculateEdgeWeight_def Let_def)
  then have h5: "(''A'', toNodeId ?c) \<in> (edges (new_NetworkGraph pair_nodes dangling_conns))\<^sup>*"
    unfolding t by (rule r_into_rtrancl)
  show ?thesis
    using h1 h3 h4 h5 dangling_link_is_followed[OF h1 h2 h3 h4 h5] unfolding f t by blast
qed

end
